theory Spec2Isabelle
  imports Main "HOL-Library.AList"
begin

section \<open>JavaScript strings\<close>

text \<open>
  Strings are lists of characters.  The helpers below are the \<^verbatim>\<open>String.prototype\<close>
  methods the processors call, on ASCII text: \<^verbatim>\<open>includes\<close>, \<^verbatim>\<open>startsWith\<close>,
  \<^verbatim>\<open>trim\<close>, \<^verbatim>\<open>toUpperCase\<close>, \<^verbatim>\<open>Array.prototype.join\<close>, and the decimal rendering
  of a non-negative integer that string concatenation with \<^verbatim>\<open>+\<close> performs.
\<close>

fun startsWith :: "string \<Rightarrow> string \<Rightarrow> bool" where
  "startsWith s [] = True"
| "startsWith [] (p # ps) = False"
| "startsWith (c # cs) (p # ps) = (c = p \<and> startsWith cs ps)"

fun includes_js :: "string \<Rightarrow> string \<Rightarrow> bool" where
  "includes_js [] p = (p = [])"
| "includes_js (c # cs) p = (startsWith (c # cs) p \<or> includes_js cs p)"

definition is_space :: "char \<Rightarrow> bool" where
  "is_space c = (c \<in> {CHR '' '', CHR 0x09, CHR 0x0A, CHR 0x0B, CHR 0x0C, CHR 0x0D})"

definition trim :: "string \<Rightarrow> string" where
  "trim s = rev (dropWhile is_space (rev (dropWhile is_space s)))"

definition upper_char :: "char \<Rightarrow> char" where
  "upper_char c =
     (let n = (of_char c :: nat) in if 97 \<le> n \<and> n \<le> 122 then char_of (n - 32) else c)"

definition toUpperCase :: "string \<Rightarrow> string" where
  "toUpperCase s = map upper_char s"

fun join :: "string \<Rightarrow> string list \<Rightarrow> string" where
  "join sep [] = []"
| "join sep [x] = x"
| "join sep (x # y # ys) = x @ sep @ join sep (y # ys)"

definition digit_char :: "nat \<Rightarrow> char" where
  "digit_char d = char_of (48 + d)"

fun show_nat :: "nat \<Rightarrow> string" where
  "show_nat n = (if n < 10 then [digit_char n] else show_nat (n div 10) @ [digit_char (n mod 10)])"

declare show_nat.simps [simp del]

section \<open>Errors\<close>

text \<open>
  Every \<^verbatim>\<open>throw\<close> of the source and of the engine is a value: a \<^verbatim>\<open>TypeError\<close> for a
  property read on \<^verbatim>\<open>undefined\<close>, a \<^verbatim>\<open>RangeError\<close> for an exhausted call stack, and the
  error a library call throws, each with its \<^verbatim>\<open>message\<close>.
\<close>

datatype error = TypeError string | RangeError string | LibraryError string

fun message :: "error \<Rightarrow> string" where
  "message (TypeError m) = m"
| "message (RangeError m) = m"
| "message (LibraryError m) = m"

text \<open>A \<^verbatim>\<open>for ... of\<close> loop whose body may throw: the first throw ends the loop.\<close>

primrec for_each :: "('a \<Rightarrow> 's \<Rightarrow> error + 's) \<Rightarrow> 'a list \<Rightarrow> 's \<Rightarrow> error + 's" where
  "for_each f [] s = Inr s"
| "for_each f (x # xs) s = (case f x s of Inl e \<Rightarrow> Inl e | Inr s' \<Rightarrow> for_each f xs s')"

section \<open>The type inferencer (csv-processor.js and json-processor.js, inferColumnTypes)\<close>

subsection \<open>Values, records and the engine's library\<close>

text \<open>
  A record value is \<^verbatim>\<open>null\<close>, a boolean, a number or a string: the CSV parser yields
  strings only, and \<^verbatim>\<open>flattenObject\<close> leaves the JSON scalars (arrays are stringified,
  nested objects flattened).  A number is carried by the text \<^verbatim>\<open>String(value)\<close> gives for
  it, which is all the inferencer reads of it together with the library calls below.
  A record is the list \<^verbatim>\<open>Object.entries\<close> gives.
\<close>

datatype jsval = JNull | JBool bool | JNum string | JStr string

type_synonym js_record = "(string \<times> jsval) list"

definition Object_keys :: "js_record \<Rightarrow> string list" where
  "Object_keys r = map fst r"

fun String_js :: "jsval \<Rightarrow> string" where
  "String_js JNull = ''null''"
| "String_js (JBool b) = (if b then ''true'' else ''false'')"
| "String_js (JNum s) = s"
| "String_js (JStr s) = s"

text \<open>
  The remaining library calls are not code of the repository; the inferencer takes their
  results as a parameter:
  \<^item> \<open>Number_isNaN v\<close>: \<^verbatim>\<open>Number.isNaN(Number(value))\<close>;
  \<^item> \<open>Number_has_point v\<close>: \<^verbatim>\<open>String(Number(value)).includes('.')\<close>;
  \<^item> \<open>Date_invalid v\<close>: \<^verbatim>\<open>new Date(value).toString() === 'Invalid Date'\<close>;
  \<^item> \<open>JSON_parses s\<close>: \<^verbatim>\<open>JSON.parse(s)\<close> returns rather than throws.
\<close>

record host =
  Number_isNaN :: "jsval \<Rightarrow> bool"
  Number_has_point :: "jsval \<Rightarrow> bool"
  Date_invalid :: "jsval \<Rightarrow> bool"
  JSON_parses :: "string \<Rightarrow> bool"

subsection \<open>Column profiles\<close>

record tracking =
  type :: "string option"
  maxLength :: nat
  containsDecimal :: bool
  containsNonNumeric :: bool
  isDate :: bool

record json_tracking = tracking +
  isJson :: bool

definition csv_initial :: tracking where
  "csv_initial = \<lparr>type = None, maxLength = 0, containsDecimal = False,
                   containsNonNumeric = False, isDate = True\<rparr>"

definition json_initial :: json_tracking where
  "json_initial = \<lparr>type = None, maxLength = 0, containsDecimal = False,
                    containsNonNumeric = False, isDate = True, isJson = False\<rparr>"

text \<open>\<^verbatim>\<open>value === null || value === ''\<close>: the entry is skipped.\<close>

fun skipped :: "jsval \<Rightarrow> bool" where
  "skipped JNull = True"
| "skipped (JStr s) = (s = [])"
| "skipped v = False"

text \<open>The date and numeric checks, the same lines in both processors.\<close>

definition date_numeric_checks :: "host \<Rightarrow> jsval \<Rightarrow> 'a tracking_scheme \<Rightarrow> 'a tracking_scheme" where
  "date_numeric_checks h v t =
     (let t1 = (if isDate t \<and> Date_invalid h v then t\<lparr>isDate := False\<rparr> else t)
      in if \<not> Number_isNaN h v
         then (if Number_has_point h v then t1\<lparr>containsDecimal := True\<rparr> else t1)
         else t1\<lparr>containsNonNumeric := True\<rparr>)"

definition csv_observe :: "host \<Rightarrow> jsval \<Rightarrow> tracking \<Rightarrow> tracking" where
  "csv_observe h v t =
     date_numeric_checks h v (t\<lparr>maxLength := max (maxLength t) (length (String_js v))\<rparr>)"

definition json_observe :: "host \<Rightarrow> jsval \<Rightarrow> json_tracking \<Rightarrow> json_tracking" where
  "json_observe h v t =
     (let t1 = t\<lparr>maxLength := max (maxLength t) (length (String_js v))\<rparr>
      in if JSON_parses h (String_js v)
         then t1\<lparr>isJson := True, isDate := False, containsNonNumeric := True\<rparr>
         else date_numeric_checks h v t1)"

text \<open>The final types, the branches in the order of the source.\<close>

definition numeric_or_text :: "'a tracking_scheme \<Rightarrow> string" where
  "numeric_or_text t =
     (if \<not> containsNonNumeric t then
        (if containsDecimal t then ''DECIMAL(10,2)''
         else if maxLength t \<le> 3 then ''TINYINT''
         else if maxLength t \<le> 5 then ''SMALLINT''
         else if maxLength t \<le> 10 then ''INT''
         else ''BIGINT'')
      else
        (if maxLength t \<le> 255 then ''VARCHAR('' @ show_nat (maxLength t) @ '')''
         else ''TEXT''))"

definition csv_resolve :: "tracking \<Rightarrow> tracking" where
  "csv_resolve t = t\<lparr>type := Some (if isDate t then ''DATETIME'' else numeric_or_text t)\<rparr>"

definition json_resolve :: "json_tracking \<Rightarrow> json_tracking" where
  "json_resolve t =
     t\<lparr>type := Some (if isJson t then ''JSON''
                      else if isDate t then ''DATETIME''
                      else numeric_or_text t)\<rparr>"

subsection \<open>The scan\<close>

text \<open>
  \<^verbatim>\<open>columnTypes\<close> has one profile for each key of the first record.  A later entry whose
  value is not skipped reads \<^verbatim>\<open>columnTypes[column]\<close>; for a column the first record does
  not have this is \<^verbatim>\<open>undefined\<close>, and reading \<^verbatim>\<open>maxLength\<close> of it throws.  (Column names
  are taken not to be property names of \<^verbatim>\<open>Object.prototype\<close>, such as \<^verbatim>\<open>toString\<close>, for
  which the read finds the inherited property instead.)
\<close>

definition undefined_read :: error where
  "undefined_read = TypeError ''Cannot read properties of undefined''"

fun analyze_entry ::
  "(jsval \<Rightarrow> 't \<Rightarrow> 't) \<Rightarrow> string \<times> jsval \<Rightarrow> (string \<times> 't) list \<Rightarrow> error + (string \<times> 't) list" where
  "analyze_entry observe (column, v) columnTypes =
     (if skipped v then Inr columnTypes
      else (case map_of columnTypes column of
              None \<Rightarrow> Inl undefined_read
            | Some _ \<Rightarrow> Inr (AList.map_entry column (observe v) columnTypes)))"

definition analyze ::
  "(jsval \<Rightarrow> 't \<Rightarrow> 't) \<Rightarrow> js_record list \<Rightarrow> (string \<times> 't) list \<Rightarrow> error + (string \<times> 't) list" where
  "analyze observe records columnTypes =
     for_each (\<lambda>r. for_each (analyze_entry observe) r) records columnTypes"

definition infer ::
  "'t \<Rightarrow> (jsval \<Rightarrow> 't \<Rightarrow> 't) \<Rightarrow> ('t \<Rightarrow> 't) \<Rightarrow> js_record list \<Rightarrow> error + (string \<times> 't) list" where
  "infer initial observe resolve records =
     (case records of
        [] \<Rightarrow> Inr []
      | firstRow # _ \<Rightarrow>
          (case analyze observe records (map (\<lambda>column. (column, initial)) (Object_keys firstRow)) of
             Inl e \<Rightarrow> Inl e
           | Inr columnTypes \<Rightarrow> Inr (map (\<lambda>(column, t). (column, resolve t)) columnTypes)))"

definition inferColumnTypes_csv :: "host \<Rightarrow> js_record list \<Rightarrow> error + (string \<times> tracking) list" where
  "inferColumnTypes_csv h = infer csv_initial (csv_observe h) csv_resolve"

definition inferColumnTypes_json :: "host \<Rightarrow> js_record list \<Rightarrow> error + (string \<times> json_tracking) list" where
  "inferColumnTypes_json h = infer json_initial (json_observe h) json_resolve"

text \<open>The resolved type of a column in the returned mapping, if the call returned.\<close>

definition resolved_type :: "error + (string \<times> 'a tracking_scheme) list \<Rightarrow> string \<Rightarrow> error + string option" where
  "resolved_type result column =
     (case result of
        Inl e \<Rightarrow> Inl e
      | Inr columnTypes \<Rightarrow> Inr (case map_of columnTypes column of None \<Rightarrow> None | Some t \<Rightarrow> type t))"

section \<open>The dependency-ordered merger (sql-processor.js, orderByDependencies)\<close>

text \<open>
  \<^verbatim>\<open>this.dependencies\<close> is a \<^verbatim>\<open>Map\<close> from a table name to the \<^verbatim>\<open>Set\<close> of the names
  it references; both iterate in insertion order, so the map is an association list and
  each set a list.  \<^verbatim>\<open>this.dependencies.get(tableName) || new Set()\<close> is \<open>deps_of\<close>.
\<close>

type_synonym dependencies = "(string \<times> string list) list"

definition deps_of :: "dependencies \<Rightarrow> string \<Rightarrow> string list" where
  "deps_of D t = (case map_of D t of None \<Rightarrow> [] | Some ds \<Rightarrow> ds)"

record merge_state =
  ordered :: "string list"
  visited :: "string set"

definition create_marker :: "string \<Rightarrow> string" where
  "create_marker t = ''CREATE TABLE `'' @ t @ ''`''"

definition find_stmt :: "string list \<Rightarrow> string \<Rightarrow> string option" where
  "find_stmt S t = List.find (\<lambda>s. includes_js s (create_marker t)) S"

definition emit :: "string list \<Rightarrow> string \<Rightarrow> merge_state \<Rightarrow> merge_state" where
  "emit S t st =
     (let st' = st\<lparr>visited := insert t (visited st)\<rparr>
      in case find_stmt S t of
           None \<Rightarrow> st'
         | Some stmt \<Rightarrow> st'\<lparr>ordered := ordered st' @ [stmt]\<rparr>)"

text \<open>
  The closure \<^verbatim>\<open>visit\<close> calls itself once for every dependency and only then adds its own
  table to \<^verbatim>\<open>visited\<close>.  The third argument is the number of frames left on the call
  stack: with none left the engine throws \<^verbatim>\<open>RangeError\<close>, which nothing catches.
\<close>

definition stack_overflow :: error where
  "stack_overflow = RangeError ''Maximum call stack size exceeded''"

primrec visit :: "dependencies \<Rightarrow> string list \<Rightarrow> nat \<Rightarrow> string \<Rightarrow> merge_state \<Rightarrow> error + merge_state" where
  "visit D S 0 t st = Inl stack_overflow"
| "visit D S (Suc n) t st =
     (if t \<in> visited st then Inr st
      else case for_each (visit D S n) (deps_of D t) st of
             Inl e \<Rightarrow> Inl e
           | Inr st' \<Rightarrow> Inr (emit S t st'))"

definition is_create_table :: "string \<Rightarrow> bool" where
  "is_create_table stmt = startsWith (toUpperCase (trim stmt)) ''CREATE TABLE''"

definition orderByDependencies ::
  "nat \<Rightarrow> string list \<Rightarrow> dependencies \<Rightarrow> string list \<Rightarrow> error + string list" where
  "orderByDependencies stack T D S =
     (case for_each (visit D S stack) T \<lparr>ordered = [], visited = {}\<rparr> of
        Inl e \<Rightarrow> Inl e
      | Inr st \<Rightarrow> Inr (ordered st @ filter (\<lambda>stmt. \<not> is_create_table stmt) S))"

section \<open>The statement rewriter (sql-processor.js, transformStatements)\<close>

text \<open>
  The SQL parser is a library.  Of the tree it returns the processor reads \<^verbatim>\<open>type\<close>,
  \<^verbatim>\<open>table[0].table\<close> and \<^verbatim>\<open>create_definitions\<close>; of a definition it reads \<^verbatim>\<open>resource\<close>,
  \<^verbatim>\<open>type\<close>, \<^verbatim>\<open>length\<close>, \<^verbatim>\<open>charset\<close>, \<^verbatim>\<open>collate\<close> and \<^verbatim>\<open>reference_definition.table\<close>.
  Whatever else the tree holds is the record's extension.  \<^verbatim>\<open>astify\<close> and \<^verbatim>\<open>sqlify\<close> are
  parameters; either may throw.
\<close>

record create_definition =
  resource :: string
  col_type :: "string option"
  col_length :: "nat option"
  charset :: "string option"
  collate :: "string option"
  reference_definition :: "string option"

record ast =
  ast_type :: string
  table :: "string list"
  create_definitions :: "create_definition list option"

record 'a parser =
  astify :: "string \<Rightarrow> error + 'a ast_scheme"
  sqlify :: "'a ast_scheme \<Rightarrow> error + string"

record config =
  toEncoding :: string
  stripPrefix :: "string option"
  mergeSql :: bool

record 'a registries =
  tables :: "(string \<times> 'a ast_scheme) list"
  dependencies :: dependencies

definition transformColumn :: "config \<Rightarrow> create_definition \<Rightarrow> create_definition" where
  "transformColumn cfg column =
     (let c1 = (if col_type column = Some ''TINYTEXT''
                then column\<lparr>col_type := Some ''VARCHAR'', col_length := Some 255\<rparr>
                else column)
      in if col_type c1 = Some ''VARCHAR'' \<or> col_type c1 = Some ''TEXT''
         then c1\<lparr>charset := Some (toEncoding cfg),
                  collate := Some (toEncoding cfg @ ''_unicode_ci'')\<rparr>
         else c1)"

definition transformColumns :: "config \<Rightarrow> create_definition list \<Rightarrow> create_definition list" where
  "transformColumns cfg columns = map (transformColumn cfg) columns"

text \<open>\<^verbatim>\<open>Set.prototype.add\<close>: a new element goes last.\<close>

definition set_add :: "'a \<Rightarrow> 'a list \<Rightarrow> 'a list" where
  "set_add x xs = (if x \<in> set xs then xs else xs @ [x])"

definition collect_dependency :: "create_definition \<Rightarrow> string list \<Rightarrow> error + string list" where
  "collect_dependency d deps =
     (if resource d = ''foreign key''
      then (case reference_definition d of
              None \<Rightarrow> Inl undefined_read
            | Some t \<Rightarrow> Inr (set_add t deps))
      else Inr deps)"

definition extractDependencies ::
  "string \<Rightarrow> 'a ast_scheme \<Rightarrow> 'a registries \<Rightarrow> error + 'a registries" where
  "extractDependencies tableName a regs =
     (case for_each collect_dependency
             (case create_definitions a of None \<Rightarrow> [] | Some defs \<Rightarrow> defs) [] of
        Inl e \<Rightarrow> Inl e
      | Inr deps \<Rightarrow> Inr (regs\<lparr>dependencies := AList.update tableName deps (dependencies regs)\<rparr>))"

text \<open>\<^verbatim>\<open>this.config.stripPrefix && tableName.startsWith(this.config.stripPrefix)\<close>\<close>

definition strips :: "config \<Rightarrow> string \<Rightarrow> bool" where
  "strips cfg tableName =
     (case stripPrefix cfg of None \<Rightarrow> False | Some p \<Rightarrow> p \<noteq> [] \<and> startsWith tableName p)"

text \<open>\<^verbatim>\<open>tableName.substring(this.config.stripPrefix.length)\<close>, where the test holds.\<close>

definition strip :: "config \<Rightarrow> string \<Rightarrow> string" where
  "strip cfg tableName =
     (case stripPrefix cfg of
        None \<Rightarrow> tableName
      | Some p \<Rightarrow> if strips cfg tableName then drop (length p) tableName else tableName)"

text \<open>
  The body of the \<^verbatim>\<open>try\<close> block for one statement.  It returns the registries as well
  when it throws: what was stored before the throw stays stored.
\<close>

definition rewrite ::
  "'a parser \<Rightarrow> config \<Rightarrow> string \<Rightarrow> 'a registries \<Rightarrow> 'a registries \<times> (error + string)" where
  "rewrite P cfg statement regs =
     (case astify P statement of
        Inl e \<Rightarrow> (regs, Inl e)
      | Inr a \<Rightarrow>
          if ast_type a = ''create'' then
            (case table a of
               [] \<Rightarrow> (regs, Inl undefined_read)
             | tableName # others \<Rightarrow>
                 let a1 = a\<lparr>table := strip cfg tableName # others\<rparr>;
                     a2 = a1\<lparr>create_definitions :=
                               map_option (transformColumns cfg) (create_definitions a1)\<rparr>;
                     regs1 = regs\<lparr>tables := AList.update tableName a2 (tables regs)\<rparr>
                 in (case extractDependencies tableName a2 regs1 of
                       Inl e \<Rightarrow> (regs1, Inl e)
                     | Inr regs2 \<Rightarrow> (regs2, sqlify P a2)))
          else (regs, sqlify P a))"

record 'a run =
  registry :: "'a registries"
  transformed :: "string list"
  warnings :: "string list"

definition transform_one :: "'a parser \<Rightarrow> config \<Rightarrow> 'a run \<Rightarrow> string \<Rightarrow> 'a run" where
  "transform_one P cfg r statement =
     (case rewrite P cfg statement (registry r) of
        (regs, Inr transformedSql) \<Rightarrow>
          r\<lparr>registry := regs, transformed := transformed r @ [transformedSql]\<rparr>
      | (regs, Inl e) \<Rightarrow>
          r\<lparr>registry := regs,
            transformed := transformed r @ [statement],
            warnings := warnings r @
              [''Error transforming statement, keeping original: '' @ message e]\<rparr>)"

definition transform_loop :: "'a parser \<Rightarrow> config \<Rightarrow> 'a registries \<Rightarrow> string list \<Rightarrow> 'a run" where
  "transform_loop P cfg regs statements =
     foldl (transform_one P cfg) \<lparr>registry = regs, transformed = [], warnings = []\<rparr> statements"

text \<open>The value \<^verbatim>\<open>transformStatements\<close> returns, or the error it throws.\<close>

definition transformStatements ::
  "'a parser \<Rightarrow> config \<Rightarrow> nat \<Rightarrow> 'a registries \<Rightarrow> string list \<Rightarrow> error + string list" where
  "transformStatements P cfg stack regs statements =
     (let r = transform_loop P cfg regs statements
      in if mergeSql cfg
         then orderByDependencies stack (map fst (tables (registry r)))
                (dependencies (registry r)) (transformed r)
         else Inr (transformed r))"

section \<open>The output assembler (sql-processor.js, generateOutput)\<close>

definition newline :: string where
  "newline = [CHR 0x0A]"

text \<open>\<open>now\<close> is \<^verbatim>\<open>new Date().toISOString()\<close> at the time of the call.\<close>

definition header :: "config \<Rightarrow> string \<Rightarrow> string" where
  "header cfg now =
     join newline
       [''-- Generated by DB Blender'',
        ''-- Timestamp: '' @ now,
        ''-- Encoding: '' @ toEncoding cfg,
        '''',
        ''SET NAMES utf8mb4;'',
        ''SET FOREIGN_KEY_CHECKS = 0;'',
        '''']"

definition footer :: string where
  "footer = join newline ['''', ''SET FOREIGN_KEY_CHECKS = 1;'']"

definition generateOutput :: "config \<Rightarrow> string \<Rightarrow> string list \<Rightarrow> string" where
  "generateOutput cfg now statements =
     header cfg now @ join ('';'' @ newline @ newline) statements @ footer"

section \<open>Notions the properties are stated with\<close>

subsection \<open>Dependency graphs and statement order\<close>

text \<open>The edges of the dependency graph: a table and a table it references.\<close>

definition dep_rel :: "dependencies \<Rightarrow> (string \<times> string) set" where
  "dep_rel D = {(t, d). d \<in> set (deps_of D t)}"


definition extends :: "merge_state \<Rightarrow> merge_state \<Rightarrow> bool" where
  "extends st st' = (visited st \<subseteq> visited st' \<and> (\<exists>zs. ordered st' = ordered st @ zs))"


text \<open>A table from which a cycle of the graph can be reached.\<close>

definition doomed :: "dependencies \<Rightarrow> string \<Rightarrow> bool" where
  "doomed D t = (\<exists>b. (t, b) \<in> (dep_rel D)\<^sup>* \<and> (b, b) \<in> (dep_rel D)\<^sup>+)"




subsection \<open>Observed values and the resolution precedence\<close>

text \<open>
  The values observed for a column: those of its entries, in the order of the scan, that
  are neither \<^verbatim>\<open>null\<close> nor the empty string.
\<close>

definition observed :: "js_record list \<Rightarrow> string \<Rightarrow> jsval list" where
  "observed records column =
     map snd (filter (\<lambda>(c, v). c = column \<and> \<not> skipped v) (concat records))"


text \<open>Every entry that is not skipped belongs to a column of the first record.\<close>

definition all_registered :: "js_record list \<Rightarrow> bool" where
  "all_registered records =
     list_all (\<lambda>(c, v). skipped v \<or> c \<in> set (Object_keys (hd records))) (concat records)"


text \<open>Inserting a record at a position of a sequence.\<close>

definition insert_at :: "nat \<Rightarrow> 'a \<Rightarrow> 'a list \<Rightarrow> 'a list" where
  "insert_at i x xs = take i xs @ x # drop i xs"

subsection \<open>A sample of the engine\<close>

text \<open>
  What Node's engine answers on \<^verbatim>\<open>null\<close>, on booleans, on finite numbers within the range
  of dates, and on strings of at most fifteen decimal digits: such a string is a number
  without a fractional point; it is JSON text unless it has a leading zero; and the
  engine's date parser reads it, alone, as a month (1 to 12, of the year 2001) or else as
  a year, so that only 13 to 31 and years past 275760 are no date.  The sample answers for
  every other string that it is not a number, not a date and, the three JSON literals
  apart, not JSON text; no property below rests on that part.
\<close>

definition digits :: "string \<Rightarrow> bool" where
  "digits s = (s \<noteq> [] \<and> list_all (\<lambda>c. c \<in> set ''0123456789'') s)"

definition nat_of_digits :: "string \<Rightarrow> nat" where
  "nat_of_digits s = foldl (\<lambda>n c. 10 * n + (of_char c - 48)) 0 s"

definition node_on_digits :: host where
  "node_on_digits =
     \<lparr>Number_isNaN = (\<lambda>v. case v of JStr s \<Rightarrow> \<not> digits s | JNum s \<Rightarrow> s = ''NaN'' | _ \<Rightarrow> False),
      Number_has_point = (\<lambda>v. case v of JNum s \<Rightarrow> CHR ''.'' \<in> set s | _ \<Rightarrow> False),
      Date_invalid = (\<lambda>v. case v of
                            JStr s \<Rightarrow> \<not> digits s \<or>
                              (let n = nat_of_digits s in (13 \<le> n \<and> n \<le> 31) \<or> 275760 < n)
                          | _ \<Rightarrow> False),
      JSON_parses = (\<lambda>s. s \<in> {''true'', ''false'', ''null''} \<or>
                          digits s \<and> (s = ''0'' \<or> hd s \<noteq> CHR ''0''))\<rparr>"

definition age_records :: "js_record list" where
  "age_records = [[(''age'', JStr ''7'')], [(''age'', JStr ''12'')], [(''age'', JStr ''999'')]]"

subsection \<open>Names the traversal can reach, and a sample parser\<close>

text \<open>The registered tables and every table some registered table references.\<close>

definition mentioned :: "string list \<Rightarrow> dependencies \<Rightarrow> string set" where
  "mentioned T D = set T \<union> (\<Union>ds \<in> snd ` set D. set ds)"

text \<open>Every emitted statement is the match of a visited name.\<close>

definition matched :: "string list \<Rightarrow> merge_state \<Rightarrow> bool" where
  "matched S st = (\<forall>s \<in> set (ordered st). \<exists>u \<in> visited st. find_stmt S u = Some s)"

text \<open>
  A parser for one shape of statement, \<^verbatim>\<open>CREATE TABLE\<close> followed by a name between
  backquotes: the tree has the name, and the rest of the text as its extension;
  \<^verbatim>\<open>sqlify\<close> writes the name of the tree back before the rest.  Any other text is a syntax
  error.
\<close>

definition sample_astify :: "string \<Rightarrow> error + string ast_scheme" where
  "sample_astify s =
     (if startsWith s ''CREATE TABLE `'' then
        (let body = drop 14 s;
             name = takeWhile (\<lambda>c. c \<noteq> CHR 0x60) body
         in case drop (length name) body of
              [] \<Rightarrow> Inl (LibraryError ''syntax error'')
            | _ # rest \<Rightarrow>
                Inr \<lparr>ast_type = ''create'', table = [name], create_definitions = None,
                     \<dots> = rest\<rparr>)
      else Inl (LibraryError ''syntax error''))"

definition sample_sqlify :: "string ast_scheme \<Rightarrow> error + string" where
  "sample_sqlify a =
     (case table a of
        [] \<Rightarrow> Inl (LibraryError ''no table'')
      | name # _ \<Rightarrow> Inr (create_marker name @ ast.more a))"

definition sample_parser :: "string parser" where
  "sample_parser = \<lparr>astify = sample_astify, sqlify = sample_sqlify\<rparr>"

definition merging :: config where
  "merging = \<lparr>toEncoding = ''utf8mb4'', stripPrefix = Some ''old_'', mergeSql = True\<rparr>"

definition no_tables :: "string registries" where
  "no_tables = \<lparr>tables = [], dependencies = []\<rparr>"

text \<open>The text of the warning the \<^verbatim>\<open>catch\<close> block logs.\<close>

definition warning :: "error \<Rightarrow> string" where
  "warning e = ''Error transforming statement, keeping original: '' @ message e"

text \<open>What the loop puts in \<^verbatim>\<open>transformed\<close> for one statement.\<close>

definition outcome :: "'a parser \<Rightarrow> config \<Rightarrow> 'a registries \<Rightarrow> string \<Rightarrow> string" where
  "outcome P cfg regs statement =
     (case snd (rewrite P cfg statement regs) of Inr sql \<Rightarrow> sql | Inl e \<Rightarrow> statement)"

section \<open>Properties of the merger\<close>



lemma extends_refl: "extends st st"
  by (simp add: extends_def)

lemma extends_trans: "extends a b \<Longrightarrow> extends b c \<Longrightarrow> extends a c"
  unfolding extends_def by auto

lemma extends_emit: "extends st (emit S t st)"
  by (auto simp: extends_def emit_def Let_def split: option.splits)

lemma visited_emit: "visited (emit S t st) = insert t (visited st)"
  by (simp add: emit_def Let_def split: option.splits)

lemma ordered_emit:
  "ordered (emit S t st) = ordered st @ (case find_stmt S t of None \<Rightarrow> [] | Some s \<Rightarrow> [s])"
  by (simp add: emit_def Let_def split: option.splits)

lemma for_each_Cons_Inr:
  "for_each f (x # xs) s = Inr s' \<Longrightarrow> \<exists>s1. f x s = Inr s1 \<and> for_each f xs s1 = Inr s'"
  by (cases "f x s") auto

lemma for_each_inv_on:
  assumes f: "\<And>x s s'. x \<in> set xs \<Longrightarrow> I s \<Longrightarrow> f x s = Inr s' \<Longrightarrow> I s'"
  shows "I s \<Longrightarrow> for_each f xs s = Inr s' \<Longrightarrow> I s'"
  using f
proof (induction xs arbitrary: s)
  case Nil
  then show ?case by simp
next
  case (Cons x xs)
  from for_each_Cons_Inr[OF Cons.prems(2)]
  obtain s1 where s1: "f x s = Inr s1" "for_each f xs s1 = Inr s'" by blast
  have "I s1" using Cons.prems(3)[of x s s1] Cons.prems(1) s1(1) by simp
  moreover have "\<And>y s s'. y \<in> set xs \<Longrightarrow> I s \<Longrightarrow> f y s = Inr s' \<Longrightarrow> I s'"
    by (rule Cons.prems(3)) simp_all
  ultimately show ?case using Cons.IH s1(2) by blast
qed

lemma for_each_inv:
  assumes f: "\<And>x s s'. I s \<Longrightarrow> f x s = Inr s' \<Longrightarrow> I s'"
  shows "I s \<Longrightarrow> for_each f xs s = Inr s' \<Longrightarrow> I s'"
  using for_each_inv_on[of xs I f s s'] f by blast

lemma for_each_extends:
  assumes f: "\<And>x s s'. f x s = Inr s' \<Longrightarrow> extends s s' \<and> x \<in> visited s'"
  shows "for_each f xs s = Inr s' \<Longrightarrow> extends s s' \<and> set xs \<subseteq> visited s'"
proof (induction xs arbitrary: s)
  case Nil
  then show ?case by (simp add: extends_refl)
next
  case (Cons x xs)
  from for_each_Cons_Inr[OF Cons.prems]
  obtain s1 where s1: "f x s = Inr s1" "for_each f xs s1 = Inr s'" by blast
  from f[OF s1(1)] Cons.IH[OF s1(2)] show ?case
    by (auto simp: extends_def)
qed

lemma visit_Suc_Inr:
  assumes "visit D S (Suc n) t st = Inr st'" and "t \<notin> visited st"
  obtains s1 where "for_each (visit D S n) (deps_of D t) st = Inr s1" and "st' = emit S t s1"
  using assms by (cases "for_each (visit D S n) (deps_of D t) st") auto

lemma visit_extends: "visit D S n t st = Inr st' \<Longrightarrow> extends st st' \<and> t \<in> visited st'"
proof (induction n arbitrary: t st st')
  case 0
  then show ?case by simp
next
  case (Suc n)
  show ?case
  proof (cases "t \<in> visited st")
    case True
    with Suc.prems show ?thesis by (simp add: extends_refl)
  next
    case False
    from visit_Suc_Inr[OF Suc.prems False]
    obtain s1 where s1: "for_each (visit D S n) (deps_of D t) st = Inr s1"
      and st': "st' = emit S t s1" by blast
    from for_each_extends[of "visit D S n", OF Suc.IH s1] have "extends st s1" by simp
    with st' show ?thesis
      using extends_emit[of s1 S t] extends_trans by (auto simp: visited_emit)
  qed
qed







lemma doomed_dep:
  assumes "doomed D t"
  shows "\<exists>d \<in> set (deps_of D t). doomed D d"
proof -
  from assms obtain b where tb: "(t, b) \<in> (dep_rel D)\<^sup>*" and bb: "(b, b) \<in> (dep_rel D)\<^sup>+"
    by (auto simp: doomed_def)
  from tb bb have "(t, b) \<in> (dep_rel D)\<^sup>+" by (metis rtranclD)
  then obtain d where d: "(t, d) \<in> dep_rel D" "(d, b) \<in> (dep_rel D)\<^sup>*"
    by (metis tranclD)
  then have "doomed D d" using bb by (auto simp: doomed_def)
  with d(1) show ?thesis by (auto simp: dep_rel_def)
qed

lemma visit_avoids_doomed:
  "\<forall>u \<in> visited st. \<not> doomed D u \<Longrightarrow> visit D S n t st = Inr st'
     \<Longrightarrow> \<forall>u \<in> visited st'. \<not> doomed D u"
proof (induction n arbitrary: t st st')
  case 0
  then show ?case by simp
next
  case (Suc n)
  show ?case
  proof (cases "t \<in> visited st")
    case True
    with Suc.prems show ?thesis by simp
  next
    case False
    from visit_Suc_Inr[OF Suc.prems(2) False]
    obtain s1 where s1: "for_each (visit D S n) (deps_of D t) st = Inr s1"
      and st': "st' = emit S t s1" by blast
    have i1: "\<forall>u \<in> visited s1. \<not> doomed D u"
      by (rule for_each_inv[of "\<lambda>s. \<forall>u \<in> visited s. \<not> doomed D u" "visit D S n",
            OF Suc.IH Suc.prems(1) s1])
    have sub: "set (deps_of D t) \<subseteq> visited s1"
      using for_each_extends[of "visit D S n", OF visit_extends s1] by simp
    have "\<not> doomed D t"
    proof
      assume "doomed D t"
      then obtain d where "d \<in> set (deps_of D t)" "doomed D d" using doomed_dep by blast
      with sub i1 show False by blast
    qed
    with i1 st' show ?thesis by (simp add: visited_emit)
  qed
qed

lemma for_each_error:
  assumes f: "\<And>x s e. f x s = Inl e \<Longrightarrow> e = err"
  shows "for_each f xs s = Inl e \<Longrightarrow> e = err"
proof (induction xs arbitrary: s)
  case Nil
  then show ?case by simp
next
  case (Cons x xs)
  then show ?case using f by (cases "f x s") auto
qed

lemma visit_error: "visit D S n t st = Inl e \<Longrightarrow> e = stack_overflow"
proof (induction n arbitrary: t st e)
  case 0
  then show ?case by simp
next
  case (Suc n)
  then show ?case
    using for_each_error[of "visit D S n" stack_overflow "deps_of D t" st e]
    by (cases "for_each (visit D S n) (deps_of D t) st") (auto split: if_splits)
qed

lemma cycle_never_returns:
  assumes t: "t \<in> set T" and tb: "(t, b) \<in> (dep_rel D)\<^sup>*" and bb: "(b, b) \<in> (dep_rel D)\<^sup>+"
  shows "orderByDependencies stack T D S = Inl stack_overflow"
proof (cases "for_each (visit D S stack) T \<lparr>ordered = [], visited = {}\<rparr>")
  case (Inl e)
  then have "e = stack_overflow"
    using for_each_error[of "visit D S stack" stack_overflow T _ e] visit_error by blast
  with Inl show ?thesis by (simp add: orderByDependencies_def)
next
  case (Inr st)
  have "\<forall>u \<in> visited st. \<not> doomed D u"
  proof (rule for_each_inv[of "\<lambda>s. \<forall>u \<in> visited s. \<not> doomed D u" "visit D S stack" _ T st])
    show "\<And>x s s'. \<forall>u \<in> visited s. \<not> doomed D u \<Longrightarrow> visit D S stack x s = Inr s'
           \<Longrightarrow> \<forall>u \<in> visited s'. \<not> doomed D u"
      by (rule visit_avoids_doomed)
    show "\<forall>u \<in> visited \<lparr>ordered = [], visited = {}\<rparr>. \<not> doomed D u" by simp
    show "for_each (visit D S stack) T \<lparr>ordered = [], visited = {}\<rparr> = Inr st" by (rule Inr)
  qed
  moreover have "set T \<subseteq> visited st"
    using for_each_extends[of "visit D S stack", OF visit_extends Inr] by simp
  moreover have "doomed D t" using tb bb by (auto simp: doomed_def)
  ultimately show ?thesis using t by blast
qed





text \<open>
  C3.  A table that references itself, such as a category with a parent category, is a
  cycle of one edge.  Whatever the depth of the call stack, \<^verbatim>\<open>orderByDependencies\<close> then
  exhausts it: \<^verbatim>\<open>visit\<close> re-enters the table, which it marks as visited only after the
  loop over its dependencies.  No statement is emitted.
\<close>

theorem order_self_reference_overflows:
  "orderByDependencies stack [''categories''] [(''categories'', [''categories''])] S
     = Inl stack_overflow"
proof (rule cycle_never_returns[of "''categories''" _ "''categories''"])
  show "''categories'' \<in> set [''categories'']" by simp
  show "(''categories'', ''categories'') \<in> (dep_rel [(''categories'', [''categories''])])\<^sup>*"
    by simp
  have "(''categories'', ''categories'') \<in> dep_rel [(''categories'', [''categories''])]"
    by (simp add: dep_rel_def deps_of_def)
  then show "(''categories'', ''categories'') \<in> (dep_rel [(''categories'', [''categories''])])\<^sup>+" ..
qed

section \<open>Properties of the type inferencer\<close>

lemma for_each_append:
  "for_each f (xs @ ys) s = (case for_each f xs s of Inl e \<Rightarrow> Inl e | Inr s' \<Rightarrow> for_each f ys s')"
  by (induction xs arbitrary: s) (auto split: sum.splits)

lemma for_each_concat:
  "for_each (\<lambda>r. for_each f r) rs s = for_each f (concat rs) s"
  by (induction rs arbitrary: s) (auto simp: for_each_append split: sum.splits)

lemma analyze_entry_keys:
  assumes "analyze_entry observe e m = Inr m'"
  shows "fst ` set m' = fst ` set m"
proof -
  obtain k v where e: "e = (k, v)" by (cases e)
  show ?thesis
  proof (cases "skipped v")
    case True
    with assms e show ?thesis by simp
  next
    case False
    with assms e have "m' = AList.map_entry k (observe v) m"
      by (cases "map_of m k") auto
    then show ?thesis by (simp only: dom_map_entry)
  qed
qed

lemma analyze_entry_lookup:
  assumes "analyze_entry observe (k, v) m = Inr m'"
  shows "map_of m' c =
           (if k = c \<and> \<not> skipped v then map_option (observe v) (map_of m c) else map_of m c)"
proof (cases "skipped v")
  case True
  with assms show ?thesis by simp
next
  case False
  with assms obtain t where t: "map_of m k = Some t" and m': "m' = AList.map_entry k (observe v) m"
    by (cases "map_of m k") auto
  show ?thesis using False t by (auto simp: m' map_of_map_entry)
qed

lemma entries_lookup:
  "for_each (analyze_entry observe) es m = Inr m' \<Longrightarrow>
   map_of m' c =
     map_option (\<lambda>t. foldl (\<lambda>t v. observe v t) t
                   (map snd (filter (\<lambda>(k, v). k = c \<and> \<not> skipped v) es)))
       (map_of m c)"
proof (induction es arbitrary: m)
  case Nil
  then show ?case by (simp add: option.map_ident)
next
  case (Cons e es)
  obtain k v where e: "e = (k, v)" by (cases e)
  from for_each_Cons_Inr[OF Cons.prems] e
  obtain m1 where m1: "analyze_entry observe (k, v) m = Inr m1"
    and rest: "for_each (analyze_entry observe) es m1 = Inr m'" by blast
  note step = analyze_entry_lookup[OF m1, of c]
  show ?case
    unfolding Cons.IH[OF rest] step e
    by (cases "map_of m c") auto
qed

lemma entries_succeed:
  "(\<exists>m'. for_each (analyze_entry observe) es m = Inr m') \<longleftrightarrow>
   list_all (\<lambda>(k, v). skipped v \<or> k \<in> fst ` set m) es"
proof (induction es arbitrary: m)
  case Nil
  then show ?case by simp
next
  case (Cons e es)
  obtain k v where e: "e = (k, v)" by (cases e)
  show ?case
  proof (cases "skipped v \<or> k \<in> fst ` set m")
    case True
    have "\<exists>m1. analyze_entry observe (k, v) m = Inr m1"
    proof (cases "skipped v")
      case True
      then show ?thesis by simp
    next
      case False
      with \<open>skipped v \<or> k \<in> fst ` set m\<close> have "map_of m k \<noteq> None"
        by (simp add: map_of_eq_None_iff)
      with False show ?thesis by (cases "map_of m k") auto
    qed
    then obtain m1 where m1: "analyze_entry observe (k, v) m = Inr m1" ..
    from analyze_entry_keys[OF m1] have "fst ` set m1 = fst ` set m" .
    with Cons.IH[of m1] m1 True e show ?thesis by simp
  next
    case False
    then have "analyze_entry observe (k, v) m = Inl undefined_read"
      by (auto simp: map_of_eq_None_iff[symmetric])
    with False e show ?thesis by simp
  qed
qed

lemma entries_error:
  "for_each (analyze_entry observe) es m = Inl e \<Longrightarrow> e = undefined_read"
proof (rule for_each_error[of "analyze_entry observe" undefined_read es m e])
  fix x s e' assume "analyze_entry observe x s = Inl e'"
  then show "e' = undefined_read"
    by (cases x) (auto split: if_splits option.splits)
qed

lemma map_of_resolve:
  "map_of (map (\<lambda>(column, t). (column, resolve t)) m) c = map_option resolve (map_of m c)"
  by (induction m) auto

lemma map_of_initial:
  "map_of (map (\<lambda>column. (column, initial)) ks) c = (if c \<in> set ks then Some initial else None)"
  by (induction ks) auto

text \<open>What \<^verbatim>\<open>inferColumnTypes\<close> returns for a column, in one equation.\<close>

lemma resolved_type_infer:
  "resolved_type (infer initial observe resolve rs) c =
     (if rs = [] then Inr None
      else if all_registered rs then
        Inr (if c \<in> set (Object_keys (hd rs))
             then type (resolve (foldl (\<lambda>t v. observe v t) initial (observed rs c)))
             else None)
      else Inl undefined_read)"
proof (cases rs)
  case Nil
  then show ?thesis by (simp add: infer_def resolved_type_def)
next
  case (Cons r rs')
  let ?m0 = "map (\<lambda>column. (column, initial)) (Object_keys r)"
  have keys: "fst ` set ?m0 = set (Object_keys r)" by (auto simp: image_iff)
  have an: "analyze observe rs ?m0 = for_each (analyze_entry observe) (concat rs) ?m0"
    by (simp add: analyze_def for_each_concat)
  show ?thesis
  proof (cases "all_registered rs")
    case True
    with entries_succeed[of observe "concat rs" ?m0] keys Cons
    obtain m' where m': "for_each (analyze_entry observe) (concat rs) ?m0 = Inr m'"
      by (auto simp: all_registered_def)
    have "map_of m' c =
            (if c \<in> set (Object_keys r)
             then Some (foldl (\<lambda>t v. observe v t) initial (observed rs c)) else None)"
      unfolding entries_lookup[OF m'] by (simp add: map_of_initial observed_def)
    with True Cons m' show ?thesis
      using an by (simp add: infer_def resolved_type_def map_of_resolve)
  next
    case False
    with entries_succeed[of observe "concat rs" ?m0] keys Cons
    have "\<not> (\<exists>m'. for_each (analyze_entry observe) (concat rs) ?m0 = Inr m')"
      by (auto simp: all_registered_def)
    then obtain e where e: "for_each (analyze_entry observe) (concat rs) ?m0 = Inl e"
      by (cases "for_each (analyze_entry observe) (concat rs) ?m0") auto
    from entries_error[OF e] e False Cons show ?thesis
      using an by (simp add: infer_def resolved_type_def)
  qed
qed


lemma date_numeric_checks_fields:
  "maxLength (date_numeric_checks h v t) = maxLength t"
  "isDate (date_numeric_checks h v t) = (isDate t \<and> \<not> Date_invalid h v)"
  "containsNonNumeric (date_numeric_checks h v t) = (containsNonNumeric t \<or> Number_isNaN h v)"
  "containsDecimal (date_numeric_checks h v t) =
     (containsDecimal t \<or> \<not> Number_isNaN h v \<and> Number_has_point h v)"
  "type (date_numeric_checks h v t) = type t"
  by (auto simp: date_numeric_checks_def Let_def)








text \<open>
  C4.  The CSV inferencer on the three records with ages 7, 12 and 999.  The date check
  comes first in the scan and in the resolution, and the engine's date parser accepts a
  bare number: under any engine that reads these three strings as dates, as Node's does,
  the column resolves to DATETIME and not to TINYINT.
\<close>

theorem age_scenario_resolves_DATETIME:
  "\<not> Date_invalid h (JStr ''7'') \<Longrightarrow> \<not> Date_invalid h (JStr ''12'') \<Longrightarrow>
   \<not> Date_invalid h (JStr ''999'') \<Longrightarrow>
   resolved_type (inferColumnTypes_csv h age_records) ''age'' = Inr (Some ''DATETIME'')"
  unfolding inferColumnTypes_csv_def resolved_type_infer
  by (simp add: age_records_def all_registered_def Object_keys_def observed_def
      csv_resolve_def csv_observe_def date_numeric_checks_fields csv_initial_def)

theorem age_scenario_resolves_DATETIME_witness:
  "\<not> Date_invalid node_on_digits (JStr ''7'') \<and>
   \<not> Date_invalid node_on_digits (JStr ''12'') \<and>
   \<not> Date_invalid node_on_digits (JStr ''999'') \<and>
   resolved_type (inferColumnTypes_csv node_on_digits age_records) ''age''
     = Inr (Some ''DATETIME'')"
proof -
  have d: "\<not> Date_invalid node_on_digits (JStr ''7'')"
    "\<not> Date_invalid node_on_digits (JStr ''12'')"
    "\<not> Date_invalid node_on_digits (JStr ''999'')"
    by (simp_all add: node_on_digits_def digits_def nat_of_digits_def)
  from age_scenario_resolves_DATETIME[OF d] d show ?thesis by blast
qed

text \<open>
  The integer widths themselves are as specified: once one of the three strings is no
  date for the engine, and all three are numbers without a fractional point, the maximum
  length 3 gives TINYINT.
\<close>

lemma age_scenario_when_not_all_dates:
  assumes "Date_invalid h (JStr ''7'') \<or> Date_invalid h (JStr ''12'') \<or>
           Date_invalid h (JStr ''999'')"
    and "\<not> Number_isNaN h (JStr ''7'')" "\<not> Number_isNaN h (JStr ''12'')"
        "\<not> Number_isNaN h (JStr ''999'')"
    and "\<not> Number_has_point h (JStr ''7'')" "\<not> Number_has_point h (JStr ''12'')"
        "\<not> Number_has_point h (JStr ''999'')"
  shows "resolved_type (inferColumnTypes_csv h age_records) ''age'' = Inr (Some ''TINYINT'')"
  unfolding inferColumnTypes_csv_def resolved_type_infer
  using assms
  by (auto simp: age_records_def all_registered_def Object_keys_def observed_def
      csv_resolve_def csv_observe_def date_numeric_checks_fields csv_initial_def
      numeric_or_text_def)

text \<open>
  C5.  For the empty sequence both inferencers return the empty mapping.  For two records
  with different columns they throw: the second record's column has no profile, and the
  scan reads \<^verbatim>\<open>maxLength\<close> of \<^verbatim>\<open>undefined\<close>.
\<close>

theorem infer_unregistered_column_throws:
  "inferColumnTypes_json h [] = Inr [] \<and>
   inferColumnTypes_csv h [] = Inr [] \<and>
   inferColumnTypes_json h [[(''a'', JStr ''1'')], [(''b'', JStr ''2'')]] = Inl undefined_read \<and>
   inferColumnTypes_csv h [[(''a'', JStr ''1'')], [(''b'', JStr ''2'')]] = Inl undefined_read"
  by (simp add: inferColumnTypes_json_def inferColumnTypes_csv_def infer_def analyze_def
      Object_keys_def)

lemma concat_insert_at:
  "concat (insert_at i r rs) = concat (take i rs) @ r @ concat (drop i rs)"
  by (simp add: insert_at_def)

lemma concat_take_drop: "concat rs = concat (take i rs) @ concat (drop i rs)"
  by (metis append_take_drop_id concat_append)

lemma hd_insert_at: "rs \<noteq> [] \<Longrightarrow> hd (insert_at i r rs) = (if i = 0 then r else hd rs)"
  by (cases rs; cases i) (simp_all add: insert_at_def)

lemma insert_at_preserves:
  assumes ne: "rs \<noteq> []"
    and r: "\<forall>(k, v) \<in> set r. (k = c \<longrightarrow> skipped v) \<and> (skipped v \<or> k \<in> set (Object_keys (hd rs)))"
    and front: "i = 0 \<longrightarrow> set (Object_keys r) = set (Object_keys (hd rs))"
  shows "resolved_type (infer initial observe resolve (insert_at i r rs)) c =
         resolved_type (infer initial observe resolve rs) c"
proof -
  have ne': "insert_at i r rs \<noteq> []" by (simp add: insert_at_def)
  have keys: "set (Object_keys (hd (insert_at i r rs))) = set (Object_keys (hd rs))"
    using front by (simp add: hd_insert_at[OF ne])
  have rc: "filter (\<lambda>(k, v). k = c \<and> \<not> skipped v) r = []"
    using r by (auto simp: filter_empty_conv)
  have obs: "observed (insert_at i r rs) c = observed rs c"
    unfolding observed_def concat_insert_at
    by (simp add: rc concat_take_drop[of rs i])
  have rr: "list_all (\<lambda>(k, v). skipped v \<or> k \<in> set (Object_keys (hd rs))) r"
    using r by (auto simp: list_all_iff)
  have reg: "all_registered (insert_at i r rs) = all_registered rs"
    unfolding all_registered_def keys concat_insert_at
    by (simp add: rr concat_take_drop[of rs i])
  show ?thesis
    unfolding resolved_type_infer by (simp add: ne ne' keys obs reg)
qed

text \<open>
  C6.  Into a non-empty record sequence, insert at any position a record whose value for
  the column is \<^verbatim>\<open>null\<close> or the empty string, whose other values that are not skipped are
  for columns of the first record, and which, if it goes first, has the first record's
  columns.  Then both inferencers give the column the type they gave it before (or throw
  as before).  Read from right to left this is the removal of such a record.
\<close>

theorem null_insertion_invariant:
  assumes "rs \<noteq> []"
    and "\<forall>(k, v) \<in> set r. (k = c \<longrightarrow> skipped v) \<and> (skipped v \<or> k \<in> set (Object_keys (hd rs)))"
    and "i = 0 \<longrightarrow> set (Object_keys r) = set (Object_keys (hd rs))"
  shows "resolved_type (inferColumnTypes_csv h (insert_at i r rs)) c =
           resolved_type (inferColumnTypes_csv h rs) c \<and>
         resolved_type (inferColumnTypes_json h (insert_at i r rs)) c =
           resolved_type (inferColumnTypes_json h rs) c"
  unfolding inferColumnTypes_csv_def inferColumnTypes_json_def
  by (simp add: insert_at_preserves[OF assms])

theorem null_insertion_invariant_witness:
  "[[(''age'', JStr ''13''), (''name'', JStr ''20'')]] \<noteq> [] \<and>
   skipped JNull \<and>
   ''name'' \<in> set (Object_keys (hd [[(''age'', JStr ''13''), (''name'', JStr ''20'')]])) \<and>
   resolved_type (inferColumnTypes_csv node_on_digits
      (insert_at 1 [(''age'', JNull), (''name'', JStr ''5'')]
         [[(''age'', JStr ''13''), (''name'', JStr ''20'')]])) ''age''
     = resolved_type (inferColumnTypes_csv node_on_digits
         [[(''age'', JStr ''13''), (''name'', JStr ''20'')]]) ''age'' \<and>
   resolved_type (inferColumnTypes_csv node_on_digits
         [[(''age'', JStr ''13''), (''name'', JStr ''20'')]]) ''age'' = Inr (Some ''TINYINT'')"
proof -
  let ?rs = "[[(''age'', JStr ''13''), (''name'', JStr ''20'')]]"
  let ?r = "[(''age'', JNull), (''name'', JStr ''5'')]"
  have a: "?rs \<noteq> []" by simp
  have b: "\<forall>(k, v) \<in> set ?r. (k = ''age'' \<longrightarrow> skipped v) \<and>
      (skipped v \<or> k \<in> set (Object_keys (hd ?rs)))"
    by (simp add: Object_keys_def)
  have c: "(1::nat) = 0 \<longrightarrow> set (Object_keys ?r) = set (Object_keys (hd ?rs))" by simp
  have d: "resolved_type (inferColumnTypes_csv node_on_digits ?rs) ''age'' = Inr (Some ''TINYINT'')"
    unfolding inferColumnTypes_csv_def resolved_type_infer
    by (simp add: all_registered_def Object_keys_def observed_def csv_resolve_def
        csv_observe_def date_numeric_checks_fields csv_initial_def numeric_or_text_def
        node_on_digits_def digits_def nat_of_digits_def)
  have e: "skipped JNull"
    "''name'' \<in> set (Object_keys (hd ?rs))"
    by (simp_all add: Object_keys_def)
  from null_insertion_invariant[OF a b c, of node_on_digits] a d e show ?thesis by blast
qed

text \<open>
  A column whose only value is \<^verbatim>\<open>null\<close> or empty resolves to DATETIME, the date flag
  being set at the start; with that value removed, from the record or with the record, the
  column is not in the mapping at all.
\<close>

theorem null_removal_changes_type:
  "resolved_type (inferColumnTypes_json node_on_digits [[(''c'', JNull)]]) ''c''
     \<noteq> resolved_type (inferColumnTypes_json node_on_digits []) ''c'' \<and>
   resolved_type (inferColumnTypes_json node_on_digits [[(''c'', JNull)]]) ''c''
     = Inr (Some ''DATETIME'') \<and>
   resolved_type (inferColumnTypes_json node_on_digits [[]]) ''c'' = Inr None \<and>
   resolved_type (inferColumnTypes_json node_on_digits []) ''c'' = Inr None \<and>
   resolved_type (inferColumnTypes_csv node_on_digits [[(''c'', JStr '''')]]) ''c''
     = Inr (Some ''DATETIME'') \<and>
   resolved_type (inferColumnTypes_csv node_on_digits []) ''c'' = Inr None"
  unfolding inferColumnTypes_csv_def inferColumnTypes_json_def resolved_type_infer
  by (simp add: all_registered_def Object_keys_def observed_def csv_resolve_def
      json_resolve_def csv_initial_def json_initial_def)



section \<open>Properties of the rewriter and the assembler\<close>

lemma visited_mentioned:
  "visit D S n t st = Inr st' \<Longrightarrow> t \<in> mentioned T D \<Longrightarrow> visited st \<subseteq> mentioned T D
     \<Longrightarrow> visited st' \<subseteq> mentioned T D"
proof (induction n arbitrary: t st st')
  case 0
  then show ?case by simp
next
  case (Suc n)
  show ?case
  proof (cases "t \<in> visited st")
    case True
    with Suc.prems show ?thesis by simp
  next
    case False
    from visit_Suc_Inr[OF Suc.prems(1) False]
    obtain s1 where s1: "for_each (visit D S n) (deps_of D t) st = Inr s1"
      and st': "st' = emit S t s1" by blast
    have deps: "set (deps_of D t) \<subseteq> mentioned T D"
    proof (cases "map_of D t")
      case None
      then show ?thesis by (simp add: deps_of_def)
    next
      case (Some ds)
      then have "(t, ds) \<in> set D" by (rule map_of_SomeD)
      then have "set ds \<subseteq> (\<Union>ds \<in> snd ` set D. set ds)" by force
      with Some show ?thesis by (auto simp: deps_of_def mentioned_def)
    qed
    have "visited s1 \<subseteq> mentioned T D"
    proof (rule for_each_inv_on[of "deps_of D t" "\<lambda>s. visited s \<subseteq> mentioned T D"
          "visit D S n" st s1])
      show "\<And>x s s'. x \<in> set (deps_of D t) \<Longrightarrow> visited s \<subseteq> mentioned T D \<Longrightarrow>
              visit D S n x s = Inr s' \<Longrightarrow> visited s' \<subseteq> mentioned T D"
        using Suc.IH deps by blast
      show "visited st \<subseteq> mentioned T D" by (rule Suc.prems(3))
      show "for_each (visit D S n) (deps_of D t) st = Inr s1" by (rule s1)
    qed
    with Suc.prems(2) st' show ?thesis by (simp add: visited_emit)
  qed
qed

lemma emit_matched: "matched S st \<Longrightarrow> matched S (emit S t st)"
  unfolding matched_def
  by (cases "find_stmt S t") (auto simp: ordered_emit visited_emit)

lemma visit_matched: "matched S st \<Longrightarrow> visit D S n t st = Inr st' \<Longrightarrow> matched S st'"
proof (induction n arbitrary: t st st')
  case 0
  then show ?case by simp
next
  case (Suc n)
  show ?case
  proof (cases "t \<in> visited st")
    case True
    with Suc.prems show ?thesis by simp
  next
    case False
    from visit_Suc_Inr[OF Suc.prems(2) False]
    obtain s1 where s1: "for_each (visit D S n) (deps_of D t) st = Inr s1"
      and st': "st' = emit S t s1" by blast
    have "matched S s1"
      using for_each_inv[of "matched S" "visit D S n", OF Suc.IH Suc.prems(1) s1] .
    with st' show ?thesis by (simp add: emit_matched)
  qed
qed

lemma find_stmt_includes: "find_stmt S u = Some s \<Longrightarrow> s \<in> set S \<and> includes_js s (create_marker u)"
  by (auto simp: find_stmt_def find_Some_iff)

text \<open>What the merger returns: matches of mentioned names, then the other statements.\<close>

lemma order_output:
  assumes "orderByDependencies stack T D S = Inr out" and "s \<in> set out"
  shows "(\<exists>u \<in> mentioned T D. find_stmt S u = Some s) \<or> (s \<in> set S \<and> \<not> is_create_table s)"
proof -
  let ?s0 = "\<lparr>ordered = [], visited = {}\<rparr>"
  from assms(1) obtain st where st: "for_each (visit D S stack) T ?s0 = Inr st"
    and out: "out = ordered st @ filter (\<lambda>stmt. \<not> is_create_table stmt) S"
    by (cases "for_each (visit D S stack) T ?s0") (auto simp: orderByDependencies_def)
  have m: "matched S st"
  proof (rule for_each_inv[of "matched S" "visit D S stack" ?s0 T st])
    show "\<And>x s s'. matched S s \<Longrightarrow> visit D S stack x s = Inr s' \<Longrightarrow> matched S s'"
      by (rule visit_matched)
    show "matched S ?s0" by (simp add: matched_def)
    show "for_each (visit D S stack) T ?s0 = Inr st" by (rule st)
  qed
  have v: "visited st \<subseteq> mentioned T D"
  proof (rule for_each_inv_on[of T "\<lambda>s. visited s \<subseteq> mentioned T D" "visit D S stack" ?s0 st])
    show "\<And>x s s'. x \<in> set T \<Longrightarrow> visited s \<subseteq> mentioned T D \<Longrightarrow>
            visit D S stack x s = Inr s' \<Longrightarrow> visited s' \<subseteq> mentioned T D"
      using visited_mentioned[of D S stack _ _ _ T] by (auto simp: mentioned_def)
    show "visited ?s0 \<subseteq> mentioned T D" by simp
    show "for_each (visit D S stack) T ?s0 = Inr st" by (rule st)
  qed
  from assms(2) out have "s \<in> set (ordered st) \<or> (s \<in> set S \<and> \<not> is_create_table s)" by auto
  with m v show ?thesis unfolding matched_def by blast
qed

lemma extractDependencies_cases:
  "(\<exists>e. extractDependencies tableName a regs = Inl e \<and>
        (\<forall>regs'. extractDependencies tableName a regs' = Inl e)) \<or>
   (\<exists>deps. \<forall>regs'. extractDependencies tableName a regs' =
        Inr (regs'\<lparr>dependencies := AList.update tableName deps (dependencies regs')\<rparr>))"
  unfolding extractDependencies_def
  by (cases "for_each collect_dependency
               (case create_definitions a of None \<Rightarrow> [] | Some defs \<Rightarrow> defs) []") auto

lemma snd_rewrite_independent:
  "snd (rewrite P cfg s regs) = snd (rewrite P cfg s regs')"
proof (cases "astify P s")
  case (Inl e)
  then show ?thesis by (simp add: rewrite_def)
next
  case (Inr a)
  show ?thesis
  proof (cases "ast_type a = ''create''")
    case False
    with Inr show ?thesis by (simp add: rewrite_def)
  next
    case True
    show ?thesis
    proof (cases "table a")
      case Nil
      with Inr True show ?thesis by (simp add: rewrite_def)
    next
      case (Cons tableName others)
      let ?a2 = "a\<lparr>table := strip cfg tableName # others,
                  create_definitions := map_option (transformColumns cfg) (create_definitions a)\<rparr>"
      from extractDependencies_cases[of tableName ?a2 regs]
      show ?thesis
        using Inr True Cons by (auto simp: rewrite_def Let_def)
    qed
  qed
qed

lemma rewrite_keys:
  "fst ` set (tables regs) \<subseteq> fst ` set (tables (fst (rewrite P cfg s regs)))"
  "fst ` set (dependencies regs) \<subseteq> fst ` set (dependencies (fst (rewrite P cfg s regs)))"
  by (auto simp: rewrite_def extractDependencies_def Let_def dom_update
      split: sum.splits list.splits)

lemma rewrite_create:
  assumes "astify P s = Inr a" and "ast_type a = ''create''" and "table a = tableName # others"
    and "snd (rewrite P cfg s regs) = Inr text"
  shows "tableName \<in> fst ` set (tables (fst (rewrite P cfg s regs)))"
    and "tableName \<in> fst ` set (dependencies (fst (rewrite P cfg s regs)))"
    and "\<exists>a2. table a2 = strip cfg tableName # others \<and> sqlify P a2 = Inr text"
proof -
  let ?a1 = "a\<lparr>table := strip cfg tableName # others\<rparr>"
  let ?a2 = "?a1\<lparr>create_definitions :=
                  map_option (transformColumns cfg) (create_definitions ?a1)\<rparr>"
  let ?regs1 = "regs\<lparr>tables := AList.update tableName ?a2 (tables regs)\<rparr>"
  have rw: "rewrite P cfg s regs =
              (case extractDependencies tableName ?a2 ?regs1 of
                 Inl e \<Rightarrow> (?regs1, Inl e)
               | Inr regs2 \<Rightarrow> (regs2, sqlify P ?a2))"
    using assms(1-3) by (simp add: rewrite_def Let_def cong: sum.case_cong)
  from extractDependencies_cases[of tableName ?a2 ?regs1]
  obtain deps where deps: "extractDependencies tableName ?a2 ?regs1 =
      Inr (?regs1\<lparr>dependencies := AList.update tableName deps (dependencies ?regs1)\<rparr>)"
    using assms(4) rw by auto
  from rw deps have f: "fst (rewrite P cfg s regs) =
      ?regs1\<lparr>dependencies := AList.update tableName deps (dependencies ?regs1)\<rparr>"
    and sq: "snd (rewrite P cfg s regs) = sqlify P ?a2" by simp_all
  show "tableName \<in> fst ` set (tables (fst (rewrite P cfg s regs)))"
    unfolding f by (simp add: dom_update)
  show "tableName \<in> fst ` set (dependencies (fst (rewrite P cfg s regs)))"
    unfolding f by (simp add: dom_update)
  have "table ?a2 = strip cfg tableName # others" by simp
  moreover have "sqlify P ?a2 = Inr text" using sq assms(4) by simp
  ultimately show "\<exists>a2. table a2 = strip cfg tableName # others \<and> sqlify P a2 = Inr text"
    by blast
qed

lemma registry_transform_one:
  "registry (transform_one P cfg r s) = fst (rewrite P cfg s (registry r))"
  by (cases "rewrite P cfg s (registry r)") (auto simp: transform_one_def split: sum.splits)

lemma transformed_transform_one:
  "transformed (transform_one P cfg r s) = transformed r @ [outcome P cfg regs s]"
proof -
  have "snd (rewrite P cfg s (registry r)) = snd (rewrite P cfg s regs)"
    by (rule snd_rewrite_independent)
  then show ?thesis
    by (cases "rewrite P cfg s (registry r)")
       (auto simp: transform_one_def outcome_def split: sum.splits)
qed

lemma warnings_transform_one:
  "warnings (transform_one P cfg r s) =
     warnings r @ (case snd (rewrite P cfg s regs) of Inl e \<Rightarrow> [warning e] | Inr _ \<Rightarrow> [])"
proof -
  have "snd (rewrite P cfg s (registry r)) = snd (rewrite P cfg s regs)"
    by (rule snd_rewrite_independent)
  then show ?thesis
    by (cases "rewrite P cfg s (registry r)")
       (auto simp: transform_one_def warning_def split: sum.splits)
qed

lemma loop_keys_mono:
  "fst ` set (tables (registry r)) \<subseteq>
     fst ` set (tables (registry (foldl (transform_one P cfg) r ss)))"
  "fst ` set (dependencies (registry r)) \<subseteq>
     fst ` set (dependencies (registry (foldl (transform_one P cfg) r ss)))"
proof (induction ss arbitrary: r)
  case Nil
  { case 1 show ?case by simp }
  { case 2 show ?case by simp }
next
  case (Cons s ss)
  { case 1
    have "fst ` set (tables (registry r)) \<subseteq> fst ` set (tables (registry (transform_one P cfg r s)))"
      by (simp add: registry_transform_one rewrite_keys)
    with Cons.IH(1)[of "transform_one P cfg r s"] show ?case by simp }
  { case 2
    have "fst ` set (dependencies (registry r)) \<subseteq>
          fst ` set (dependencies (registry (transform_one P cfg r s)))"
      by (simp add: registry_transform_one rewrite_keys)
    with Cons.IH(2)[of "transform_one P cfg r s"] show ?case by simp }
qed

lemma loop_transformed:
  "transformed (foldl (transform_one P cfg) r ss) = transformed r @ map (outcome P cfg regs) ss"
  by (induction ss arbitrary: r) (simp_all add: transformed_transform_one[of P cfg _ _ regs])

lemma loop_warnings:
  "warnings (foldl (transform_one P cfg) r ss) =
     warnings r @
     concat (map (\<lambda>s. case snd (rewrite P cfg s regs) of Inl e \<Rightarrow> [warning e] | Inr _ \<Rightarrow> []) ss)"
  by (induction ss arbitrary: r) (simp_all add: warnings_transform_one[of P cfg _ _ regs])

lemma loop_registers:
  assumes "s \<in> set ss"
    and "\<And>regs. tableName \<in> fst ` set (tables (fst (rewrite P cfg s regs)))"
    and "\<And>regs. tableName \<in> fst ` set (dependencies (fst (rewrite P cfg s regs)))"
  shows "tableName \<in> fst ` set (tables (registry (foldl (transform_one P cfg) r ss))) \<and>
         tableName \<in> fst ` set (dependencies (registry (foldl (transform_one P cfg) r ss)))"
  using assms(1)
proof (induction ss arbitrary: r)
  case Nil
  then show ?case by simp
next
  case (Cons x ss)
  show ?case
  proof (cases "x = s")
    case True
    have "tableName \<in> fst ` set (tables (registry (transform_one P cfg r s)))"
      "tableName \<in> fst ` set (dependencies (registry (transform_one P cfg r s)))"
      by (simp_all add: registry_transform_one assms(2,3))
    with loop_keys_mono[of "transform_one P cfg r s" P cfg ss] True show ?thesis
      by auto
  next
    case False
    with Cons.prems have "s \<in> set ss" by simp
    from Cons.IH[OF this, of "transform_one P cfg r x"] show ?thesis by simp
  qed
qed

text \<open>
  The loop itself recovers from every throw of the \<^verbatim>\<open>try\<close> block: \<^verbatim>\<open>transformed\<close> has
  one entry for each statement, the original text where the block threw and the rewritten
  text elsewhere, each decided by its own statement alone; every throw leaves its warning;
  and with merge mode off this sequence is what \<^verbatim>\<open>transformStatements\<close> returns.
\<close>

lemma transform_loop_passthrough:
  "transformed (transform_loop P cfg regs statements) = map (outcome P cfg regs) statements"
  "astify P s = Inl e \<Longrightarrow> outcome P cfg regs s = s"
  "s \<in> set statements \<Longrightarrow> astify P s = Inl e \<Longrightarrow>
     warning e \<in> set (warnings (transform_loop P cfg regs statements))"
  "\<not> mergeSql cfg \<Longrightarrow>
     transformStatements P cfg stack regs statements = Inr (map (outcome P cfg regs) statements)"
proof -
  show t: "transformed (transform_loop P cfg regs statements) = map (outcome P cfg regs) statements"
    by (simp add: transform_loop_def loop_transformed[of P cfg _ _ regs])
  show "astify P s = Inl e \<Longrightarrow> outcome P cfg regs s = s"
    by (simp add: outcome_def rewrite_def)
  show "s \<in> set statements \<Longrightarrow> astify P s = Inl e \<Longrightarrow>
     warning e \<in> set (warnings (transform_loop P cfg regs statements))"
  proof -
    assume s: "s \<in> set statements" and e: "astify P s = Inl e"
    then have "snd (rewrite P cfg s regs) = Inl e" by (simp add: rewrite_def)
    with s show ?thesis
      by (force simp: transform_loop_def loop_warnings[of P cfg _ _ regs])
  qed
  show "\<not> mergeSql cfg \<Longrightarrow>
     transformStatements P cfg stack regs statements = Inr (map (outcome P cfg regs) statements)"
    using t by (simp add: transformStatements_def Let_def)
qed

text \<open>
  C7.  In merge mode the recovery is undone by the merger.  For a statement that begins
  with \<^verbatim>\<open>CREATE TABLE\<close> and that the parser rejects, the loop keeps the original text and
  logs the warning that it does, yet no table is registered for it, so no visit emits it,
  and the closing pass of \<^verbatim>\<open>orderByDependencies\<close> appends only statements that do not
  begin with \<^verbatim>\<open>CREATE TABLE\<close>: the sequence \<^verbatim>\<open>transformStatements\<close> returns is empty.
\<close>

theorem malformed_create_table_lost_in_merge:
  assumes "astify P s = Inl e" and "is_create_table s" and "mergeSql cfg"
  shows "transformed (transform_loop P cfg \<lparr>tables = [], dependencies = []\<rparr> [s]) = [s] \<and>
         warnings (transform_loop P cfg \<lparr>tables = [], dependencies = []\<rparr> [s]) = [warning e] \<and>
         transformStatements P cfg stack \<lparr>tables = [], dependencies = []\<rparr> [s] = Inr []"
  using assms
  by (simp add: transformStatements_def transform_loop_def transform_one_def rewrite_def
      orderByDependencies_def warning_def)

theorem malformed_create_table_lost_in_merge_witness:
  "astify sample_parser ''CREATE TABLE broken (id INT,;'' = Inl (LibraryError ''syntax error'') \<and>
   is_create_table ''CREATE TABLE broken (id INT,;'' \<and> mergeSql merging \<and>
   transformed (transform_loop sample_parser merging no_tables [''CREATE TABLE broken (id INT,;''])
     = [''CREATE TABLE broken (id INT,;''] \<and>
   transformStatements sample_parser merging 0 no_tables [''CREATE TABLE broken (id INT,;''] = Inr []"
proof -
  have a: "astify sample_parser ''CREATE TABLE broken (id INT,;'' = Inl (LibraryError ''syntax error'')"
    by (simp add: sample_parser_def sample_astify_def)
  have b: "is_create_table ''CREATE TABLE broken (id INT,;''"
    by (simp add: is_create_table_def trim_def toUpperCase_def upper_char_def is_space_def)
  have c: "mergeSql merging" by (simp add: merging_def)
  from malformed_create_table_lost_in_merge[OF a b c, of 0] a b c show ?thesis
    by (simp add: no_tables_def)
qed

text \<open>
  C10.  Merge mode, and a statement the parser reads as the creation of a table whose
  name begins with the configured prefix.  The table and its dependencies are registered
  under the name before stripping; the tree handed to \<^verbatim>\<open>sqlify\<close> carries the stripped
  name.  If the text \<^verbatim>\<open>sqlify\<close> returns begins with \<^verbatim>\<open>CREATE TABLE\<close> and includes the
  marker \<^verbatim>\<open>CREATE TABLE\<close> with the name in backquotes for no registered or referenced name
  (so the stripped name is not one of them), then the text is in \<^verbatim>\<open>transformed\<close> and not in the ordered output.
\<close>

theorem stripped_table_dropped:
  assumes merge: "mergeSql cfg"
    and s: "s \<in> set statements"
    and a: "astify P s = Inr a" "ast_type a = ''create''" "table a = tableName # others"
    and strips: "strips cfg tableName"
    and rendered: "snd (rewrite P cfg s regs) = Inr text"
    and create: "is_create_table text"
    and r: "r = transform_loop P cfg regs statements"
    and unmatched: "\<forall>u \<in> mentioned (map fst (tables (registry r))) (dependencies (registry r)).
                      \<not> includes_js text (create_marker u)"
    and out: "transformStatements P cfg stack regs statements = Inr out"
  shows "tableName \<in> set (map fst (tables (registry r))) \<and>
         tableName \<in> set (map fst (dependencies (registry r))) \<and>
         strip cfg tableName \<noteq> tableName \<and>
         (\<exists>a2. table a2 = strip cfg tableName # others \<and> sqlify P a2 = Inr text) \<and>
         text \<in> set (transformed r) \<and>
         text \<notin> set out"
proof (intro conjI)
  have text': "\<And>regs'. snd (rewrite P cfg s regs') = Inr text"
    using rendered snd_rewrite_independent[of P cfg s] by metis
  have reg: "tableName \<in> fst ` set (tables (registry r)) \<and>
        tableName \<in> fst ` set (dependencies (registry r))"
    unfolding r transform_loop_def
    by (rule loop_registers[OF s]) (rule rewrite_create[OF a text'])+
  then show "tableName \<in> set (map fst (tables (registry r)))"
    and "tableName \<in> set (map fst (dependencies (registry r)))" by simp_all
  from strips obtain p where p: "stripPrefix cfg = Some p" "p \<noteq> []"
    by (cases "stripPrefix cfg") (auto simp: strips_def)
  have "length (strip cfg tableName) < length tableName \<or> tableName = []"
    using strips p by (auto simp: strip_def)
  moreover have "tableName \<noteq> []"
    using strips p by (cases tableName; cases p) (auto simp: strips_def)
  ultimately show "strip cfg tableName \<noteq> tableName" by auto
  show "\<exists>a2. table a2 = strip cfg tableName # others \<and> sqlify P a2 = Inr text"
    by (rule rewrite_create(3)[OF a rendered])
  have tr: "transformed r = map (outcome P cfg regs) statements"
    unfolding r by (rule transform_loop_passthrough(1))
  have "outcome P cfg regs s = text" using rendered by (simp add: outcome_def)
  with s tr show "text \<in> set (transformed r)" by force
  show "text \<notin> set out"
  proof
    assume "text \<in> set out"
    moreover from out merge r
    have "orderByDependencies stack (map fst (tables (registry r)))
            (dependencies (registry r)) (transformed r) = Inr out"
      by (simp add: transformStatements_def Let_def)
    ultimately have "(\<exists>u \<in> mentioned (map fst (tables (registry r))) (dependencies (registry r)).
                        find_stmt (transformed r) u = Some text) \<or>
                     (text \<in> set (transformed r) \<and> \<not> is_create_table text)"
      by (rule order_output[rotated])
    with create obtain u
      where u: "u \<in> mentioned (map fst (tables (registry r))) (dependencies (registry r))"
        and f: "find_stmt (transformed r) u = Some text" by blast
    from find_stmt_includes[OF f] have "includes_js text (create_marker u)" by simp
    with unmatched u show False by blast
  qed
qed

lemma sample_users:
  "rewrite sample_parser merging ''CREATE TABLE `old_users` (`id` INT)'' regs =
     (regs\<lparr>tables := AList.update ''old_users''
                \<lparr>ast_type = ''create'', table = [''users''], create_definitions = None,
                 \<dots> = '' (`id` INT)''\<rparr> (tables regs),
            dependencies := AList.update ''old_users'' [] (dependencies regs)\<rparr>,
      Inr ''CREATE TABLE `users` (`id` INT)'')"
  by (simp add: rewrite_def sample_parser_def sample_astify_def sample_sqlify_def
      extractDependencies_def strip_def strips_def merging_def create_marker_def Let_def)

lemma sample_old_users:
  "rewrite sample_parser merging ''CREATE TABLE `old_old_users` (`id` INT)'' regs =
     (regs\<lparr>tables := AList.update ''old_old_users''
                \<lparr>ast_type = ''create'', table = [''old_users''], create_definitions = None,
                 \<dots> = '' (`id` INT)''\<rparr> (tables regs),
            dependencies := AList.update ''old_old_users'' [] (dependencies regs)\<rparr>,
      Inr ''CREATE TABLE `old_users` (`id` INT)'')"
  by (simp add: rewrite_def sample_parser_def sample_astify_def sample_sqlify_def
      extractDependencies_def strip_def strips_def merging_def create_marker_def Let_def)

lemma sample_loop_one:
  "transform_loop sample_parser merging no_tables [''CREATE TABLE `old_users` (`id` INT)''] =
     \<lparr>registry = \<lparr>tables = [(''old_users'',
                     \<lparr>ast_type = ''create'', table = [''users''], create_definitions = None,
                      \<dots> = '' (`id` INT)''\<rparr>)],
                   dependencies = [(''old_users'', [])]\<rparr>,
      transformed = [''CREATE TABLE `users` (`id` INT)''], warnings = []\<rparr>"
  by (simp add: transform_loop_def transform_one_def sample_users no_tables_def)

lemma sample_loop_two:
  "transform_loop sample_parser merging no_tables
     [''CREATE TABLE `old_old_users` (`id` INT)'', ''CREATE TABLE `old_users` (`id` INT)''] =
     \<lparr>registry = \<lparr>tables = [(''old_old_users'',
                     \<lparr>ast_type = ''create'', table = [''old_users''], create_definitions = None,
                      \<dots> = '' (`id` INT)''\<rparr>),
                    (''old_users'',
                     \<lparr>ast_type = ''create'', table = [''users''], create_definitions = None,
                      \<dots> = '' (`id` INT)''\<rparr>)],
                   dependencies = [(''old_old_users'', []), (''old_users'', [])]\<rparr>,
      transformed = [''CREATE TABLE `old_users` (`id` INT)'', ''CREATE TABLE `users` (`id` INT)''],
      warnings = []\<rparr>"
  by (simp add: transform_loop_def transform_one_def sample_users sample_old_users no_tables_def)


lemma sample_create:
  "is_create_table ''CREATE TABLE `users` (`id` INT)''"
  "is_create_table ''CREATE TABLE `old_users` (`id` INT)''"
  by (simp_all add: is_create_table_def trim_def toUpperCase_def upper_char_def is_space_def)

theorem stripped_table_dropped_witness:
  "mergeSql merging \<and> strips merging ''old_users'' \<and>
   astify sample_parser ''CREATE TABLE `old_users` (`id` INT)'' =
     Inr \<lparr>ast_type = ''create'', table = [''old_users''], create_definitions = None,
          \<dots> = '' (`id` INT)''\<rparr> \<and>
   is_create_table ''CREATE TABLE `users` (`id` INT)'' \<and>
   map fst (tables (registry (transform_loop sample_parser merging no_tables
      [''CREATE TABLE `old_users` (`id` INT)'']))) = [''old_users''] \<and>
   transformed (transform_loop sample_parser merging no_tables
      [''CREATE TABLE `old_users` (`id` INT)'']) = [''CREATE TABLE `users` (`id` INT)''] \<and>
   transformStatements sample_parser merging 1 no_tables
      [''CREATE TABLE `old_users` (`id` INT)''] = Inr [] \<and>
   ''CREATE TABLE `users` (`id` INT)'' \<notin> set ([] :: string list)"
proof -
  let ?s = "''CREATE TABLE `old_users` (`id` INT)''"
  let ?t = "''CREATE TABLE `users` (`id` INT)''"
  let ?a = "\<lparr>ast_type = ''create'', table = [''old_users''], create_definitions = None,
             \<dots> = '' (`id` INT)''\<rparr>"
  let ?r = "transform_loop sample_parser merging no_tables [?s]"
  have m: "mergeSql merging" by (simp add: merging_def)
  have st: "strips merging ''old_users''" by (simp add: strips_def merging_def)
  have a: "astify sample_parser ?s = Inr ?a"
    by (simp add: sample_parser_def sample_astify_def)
  have rd: "snd (rewrite sample_parser merging ?s no_tables) = Inr ?t"
    by (simp add: sample_users)
  have keys: "map fst (tables (registry ?r)) = [''old_users'']"
    and tr: "transformed ?r = [?t]"
    and deps: "dependencies (registry ?r) = [(''old_users'', [])]"
    by (simp_all add: sample_loop_one)
  have un: "\<forall>u \<in> mentioned (map fst (tables (registry ?r))) (dependencies (registry ?r)).
              \<not> includes_js ?t (create_marker u)"
    unfolding keys deps by (simp add: mentioned_def create_marker_def)
  have out: "transformStatements sample_parser merging 1 no_tables [?s] = Inr []"
    unfolding transformStatements_def Let_def keys deps tr
    by (simp add: m orderByDependencies_def deps_of_def emit_def find_stmt_def
        create_marker_def sample_create)
  from stripped_table_dropped[OF m _ a _ _ st rd sample_create(1) refl un out]
  have "?t \<notin> set ([] :: string list)" by simp
  with m st a sample_create(1) keys tr out show ?thesis by blast
qed

text \<open>
  With the prefix \<^verbatim>\<open>old_\<close> and the two tables \<^verbatim>\<open>old_old_users\<close> and \<^verbatim>\<open>old_users\<close>, the
  statement of the first is rewritten to create \<^verbatim>\<open>old_users\<close>, which is the name the
  second is registered under: the visit of that name finds and emits it.
\<close>

theorem stripped_table_still_emitted:
  "strips merging ''old_old_users'' \<and>
   transformed (transform_loop sample_parser merging no_tables
      [''CREATE TABLE `old_old_users` (`id` INT)'', ''CREATE TABLE `old_users` (`id` INT)''])
     = [''CREATE TABLE `old_users` (`id` INT)'', ''CREATE TABLE `users` (`id` INT)''] \<and>
   transformStatements sample_parser merging 1 no_tables
      [''CREATE TABLE `old_old_users` (`id` INT)'', ''CREATE TABLE `old_users` (`id` INT)'']
     = Inr [''CREATE TABLE `old_users` (`id` INT)'']"
proof -
  let ?ss = "[''CREATE TABLE `old_old_users` (`id` INT)'', ''CREATE TABLE `old_users` (`id` INT)'']"
  let ?r = "transform_loop sample_parser merging no_tables ?ss"
  have st: "strips merging ''old_old_users''" by (simp add: strips_def merging_def)
  have keys: "map fst (tables (registry ?r)) = [''old_old_users'', ''old_users'']"
    and tr: "transformed ?r =
        [''CREATE TABLE `old_users` (`id` INT)'', ''CREATE TABLE `users` (`id` INT)'']"
    and deps: "dependencies (registry ?r) = [(''old_old_users'', []), (''old_users'', [])]"
    by (simp_all add: sample_loop_two)
  have out: "transformStatements sample_parser merging 1 no_tables ?ss
     = Inr [''CREATE TABLE `old_users` (`id` INT)'']"
    unfolding transformStatements_def Let_def keys deps tr
    by (simp add: merging_def orderByDependencies_def deps_of_def emit_def find_stmt_def
        create_marker_def sample_create)
  from st tr out show ?thesis by blast
qed

lemma join_layout:
  "join sep xs = concat (map (\<lambda>x. x @ sep) (butlast xs)) @ (if xs = [] then [] else last xs)"
  by (induction sep xs rule: join.induct) simp_all

text \<open>
  C8.  The document is the banner (tool name, timestamp, target encoding), an empty line,
  the encoding pragma and the integrity-disable pragma, each on its line; then the
  statements in order, each as it is, every one but the last followed by a semicolon and
  an empty line and the last by a line break; then the integrity-enable pragma.
\<close>

theorem generateOutput_layout:
  "generateOutput cfg now statements =
     ''-- Generated by DB Blender'' @ newline @
     ''-- Timestamp: '' @ now @ newline @
     ''-- Encoding: '' @ toEncoding cfg @ newline @
     newline @
     ''SET NAMES utf8mb4;'' @ newline @
     ''SET FOREIGN_KEY_CHECKS = 0;'' @ newline @
     concat (map (\<lambda>s. s @ '';'' @ newline @ newline) (butlast statements)) @
     (if statements = [] then [] else last statements) @
     newline @ ''SET FOREIGN_KEY_CHECKS = 1;''"
  unfolding generateOutput_def join_layout[of _ statements]
  by (simp add: header_def footer_def)

text \<open>
  Nothing removes a semicolon a statement already ends with: two statements kept as the
  splitter produced them give a doubled terminator after the first.
\<close>

theorem terminator_duplicated:
  "includes_js
     (generateOutput merging ''2026-01-01T00:00:00.000Z''
        [''LOCK TABLES t WRITE;'', ''UNLOCK TABLES;''])
     ''LOCK TABLES t WRITE;;''"
  by (simp add: generateOutput_def header_def footer_def newline_def merging_def)

end
